theory Spec2Isabelle
  imports Main "HOL-Library.Multiset"
begin

section \<open>Errors\<close>

text \<open>
  errors.go declares three sentinel errors; lrucache.go builds the others inline with
  \<open>errors.New\<close> and \<open>fmt.Errorf\<close>. The two failures of the memdb table that the cache
  can meet are kept apart: go-memdb's \<open>StringFieldIndex\<close> refuses an object whose indexed
  field is the empty string ("object missing primary index"), and \<open>Txn.Delete\<close> returns
  \<open>ErrNotFound\<close> for an object that is not in the table.
\<close>

datatype memdb_error = MissingPrimaryIndex | NotFound

datatype error =
    ErrCacheNotInitialized
  | ErrItemExpired
  | ErrItemNotFound
  | ErrSizeNotPositive
  | ErrTTLNotPositive
  | ErrSerialize
  | ErrInsert memdb_error
  | ErrDelete memdb_error

section \<open>Values and the codec (serde.go)\<close>

text \<open>
  A Go \<open>interface{}\<close> value, by the cases of the type switch in \<open>serialize\<close>. Floating-point
  numbers are an abstract type \<open>'f\<close> and every value of another dynamic type (structs, maps,
  slices, nil, unsigned integers, what \<open>json.Unmarshal\<close> builds) is an abstract \<open>'a\<close>.
  A \<open>[]byte\<close> and a \<open>string\<close> are both byte lists.
\<close>

datatype ('f, 'a) val =
    VString string
  | VBytes string
  | VInt int
  | VInt32 int
  | VInt64 int
  | VFloat32 'f
  | VFloat64 'f
  | VBool bool
  | VOther 'a

text \<open>
  The library functions whose results depend on floating-point arithmetic or on the JSON
  grammar are parameters of the model: \<open>fmt.Sprintf("%f", v)\<close>, \<open>json.Marshal\<close>,
  \<open>strconv.ParseFloat(s, 64)\<close> and \<open>json.Unmarshal\<close> (\<open>None\<close> is a non-nil error).
\<close>

record ('f, 'a) stdlib =
  Sprintf_f :: "'f \<Rightarrow> string"
  json_Marshal :: "'a \<Rightarrow> string option"
  ParseFloat :: "string \<Rightarrow> 'f option"
  json_Unmarshal :: "string \<Rightarrow> 'a option"

subsection \<open>\<open>fmt.Sprintf("%d", v)\<close>\<close>

definition digit_char :: "nat \<Rightarrow> char" where
  "digit_char d = ''0123456789'' ! d"

function digits_of :: "nat \<Rightarrow> string" where
  "digits_of n = (if n < 10 then [digit_char n] else digits_of (n div 10) @ [digit_char (n mod 10)])"
  by pat_completeness auto
termination
  by (relation "measure id") auto

declare digits_of.simps [simp del]

definition Sprintf_d :: "int \<Rightarrow> string" where
  "Sprintf_d i = (if i < 0 then CHR ''-'' # digits_of (nat (- i)) else digits_of (nat i))"

definition Sprintf_t :: "bool \<Rightarrow> string" where
  "Sprintf_t b = (if b then ''true'' else ''false'')"

subsection \<open>\<open>strconv.Atoi\<close> and \<open>strconv.ParseBool\<close>\<close>

text \<open>
  \<open>Atoi\<close> accepts an optional sign followed by one or more decimal digits, and fails with a
  range error when the number does not fit \<open>int\<close>, which is taken to be 64 bits wide.
\<close>

definition is_digit :: "char \<Rightarrow> bool" where
  "is_digit c = (48 \<le> (of_char c :: nat) \<and> (of_char c :: nat) \<le> 57)"

definition digit_val :: "char \<Rightarrow> nat" where
  "digit_val c = of_char c - 48"

definition decimal :: "string \<Rightarrow> nat" where
  "decimal ds = foldl (\<lambda>n c. n * 10 + digit_val c) 0 ds"

definition Atoi :: "string \<Rightarrow> int option" where
  "Atoi s =
     (let neg = (s \<noteq> [] \<and> hd s = CHR ''-'');
          ds = (if s \<noteq> [] \<and> (hd s = CHR ''-'' \<or> hd s = CHR ''+'') then tl s else s)
      in if ds = [] \<or> \<not> list_all is_digit ds then None
         else let n = int (decimal ds); v = (if neg then - n else n)
              in if v < - (2 ^ 63) \<or> 2 ^ 63 - 1 < v then None else Some v)"

definition ParseBool :: "string \<Rightarrow> bool option" where
  "ParseBool str =
     (if str \<in> set [''1'', ''t'', ''T'', ''true'', ''TRUE'', ''True''] then Some True
      else if str \<in> set [''0'', ''f'', ''F'', ''false'', ''FALSE'', ''False''] then Some False
      else None)"

subsection \<open>\<open>serialize\<close> and \<open>deserialize\<close>\<close>

fun serialize :: "('f, 'a) stdlib \<Rightarrow> ('f, 'a) val \<Rightarrow> string option" where
  "serialize env (VString v) = Some v"
| "serialize env (VBytes v) = Some v"
| "serialize env (VInt v) = Some (Sprintf_d v)"
| "serialize env (VInt32 v) = Some (Sprintf_d v)"
| "serialize env (VInt64 v) = Some (Sprintf_d v)"
| "serialize env (VFloat32 v) = Some (Sprintf_f env v)"
| "serialize env (VFloat64 v) = Some (Sprintf_f env v)"
| "serialize env (VBool v) = Some (Sprintf_t v)"
| "serialize env (VOther v) = json_Marshal env v"

text \<open>\<open>deserialize\<close> never returns an error: its last case accepts every byte sequence.\<close>

definition deserialize :: "('f, 'a) stdlib \<Rightarrow> string \<Rightarrow> ('f, 'a) val" where
  "deserialize env data =
     (case Atoi data of Some i \<Rightarrow> VInt i
      | None \<Rightarrow>
     (case ParseFloat env data of Some f \<Rightarrow> VFloat64 f
      | None \<Rightarrow>
     (case ParseBool data of Some b \<Rightarrow> VBool b
      | None \<Rightarrow>
     (case json_Unmarshal env data of Some v \<Rightarrow> VOther v
      | None \<Rightarrow> VString data))))"

section \<open>The item store (cache_item.go and the memdb table "cache")\<close>

text \<open>
  Times are integers, the nanoseconds since the zero \<open>time.Time\<close>; a \<open>time.Duration\<close> is
  an integer number of nanoseconds. \<open>Before\<close> is \<open><\<close>, \<open>After\<close> is \<open>>\<close> and \<open>Add\<close> is \<open>+\<close>.
\<close>

type_synonym time = int

record CacheItem =
  Key :: string
  Value :: string
  ExpiresAt :: time

text \<open>
  The table has one unique index, "id", over the field \<open>Key\<close>: it is a map from keys to
  items. \<open>txn_Insert\<close> is \<open>Txn.Insert\<close> followed by \<open>Commit\<close> (insert or replace),
  \<open>txn_First\<close> is \<open>Txn.First\<close> on the index, \<open>txn_Delete\<close> is \<open>Txn.Delete\<close> followed by
  \<open>Commit\<close>. An aborted transaction leaves the table as it was.

  go-memdb is a library outside the repository; the model follows its documented behaviour.
  \<open>StringFieldIndex.FromObject\<close> reports a missing index value for the empty string, and
  both \<open>Insert\<close> and \<open>Delete\<close> then fail with "object missing primary index".
  \<open>Txn.Delete\<close> requires that the object is in the table ("This object must already exist
  in the table") and returns \<open>ErrNotFound\<close> otherwise. \<open>Txn.First\<close> with a string argument on
  this index does not fail; it returns \<open>nil\<close> for a key that is not in the table.
\<close>

type_synonym table = "string \<rightharpoonup> CacheItem"

definition txn_Insert :: "table \<Rightarrow> CacheItem \<Rightarrow> memdb_error + table" where
  "txn_Insert t item =
     (if Key item = [] then Inl MissingPrimaryIndex else Inr (t(Key item \<mapsto> item)))"

definition txn_First :: "table \<Rightarrow> string \<Rightarrow> CacheItem option" where
  "txn_First t key = t key"

definition txn_Delete :: "table \<Rightarrow> string \<Rightarrow> memdb_error + table" where
  "txn_Delete t key =
     (if key = [] then Inl MissingPrimaryIndex
      else if t key = None then Inl NotFound
      else Inr (t(key := None)))"

section \<open>The expiry index (expiration_heap.go)\<close>

record expirationHeap =
  items :: "string list"
  expiresAt :: "string \<rightharpoonup> time"

text \<open>Reading a Go map at a missing key gives the zero value, here the zero time.\<close>

definition expiry :: "expirationHeap \<Rightarrow> string \<Rightarrow> time" where
  "expiry h k = (case expiresAt h k of None \<Rightarrow> 0 | Some t \<Rightarrow> t)"

definition Len :: "expirationHeap \<Rightarrow> nat" where
  "Len h = length (items h)"

definition Less :: "expirationHeap \<Rightarrow> nat \<Rightarrow> nat \<Rightarrow> bool" where
  "Less h i j = (expiry h (items h ! i) < expiry h (items h ! j))"

definition Swap :: "expirationHeap \<Rightarrow> nat \<Rightarrow> nat \<Rightarrow> expirationHeap" where
  "Swap h i j = h\<lparr>items := (items h)[i := items h ! j, j := items h ! i]\<rparr>"

definition Push :: "expirationHeap \<Rightarrow> string \<Rightarrow> expirationHeap" where
  "Push h x = h\<lparr>items := items h @ [x]\<rparr>"

text \<open>\<open>Pop\<close> reads \<open>old[n-1]\<close>: on an empty slice Go panics, which is \<open>None\<close>.\<close>

definition Pop :: "expirationHeap \<Rightarrow> (string \<times> expirationHeap) option" where
  "Pop h = (if items h = [] then None
            else Some (last (items h), h\<lparr>items := butlast (items h)\<rparr>))"

subsection \<open>\<open>container/heap\<close> over the expiry index\<close>

text \<open>
  \<open>up\<close>, \<open>down\<close>, \<open>heap.Push\<close> and \<open>heap.Pop\<close> of Go's standard library, specialised to
  \<open>expirationHeap\<close>. Indices are natural numbers: for \<open>j = 0\<close> Go computes the parent
  \<open>(j - 1) / 2 = 0\<close> by truncation, and so does \<open>(j - 1) div 2\<close> on \<open>nat\<close>. \<open>up\<close> and
  \<open>down\<close> call \<open>Less\<close> and \<open>Swap\<close> only at indices below the length they are given, so
  the index panics of Go do not arise. Of \<open>down\<close> the model keeps the heap and drops the
  boolean result, which \<open>heap.Pop\<close> ignores, and the test \<open>j1 < 0\<close> for integer overflow.
\<close>

function up :: "expirationHeap \<Rightarrow> nat \<Rightarrow> expirationHeap" where
  "up h j =
     (let i = (j - 1) div 2
      in if i = j \<or> \<not> Less h j i then h else up (Swap h i j) i)"
  by pat_completeness auto
termination
  apply (relation "measure snd")
   apply simp
  apply (simp add: Let_def)
  apply arith
  done

declare up.simps [simp del]

function down :: "expirationHeap \<Rightarrow> nat \<Rightarrow> nat \<Rightarrow> expirationHeap" where
  "down h i n =
     (let j1 = 2 * i + 1
      in if n \<le> j1 then h
         else let j = (if j1 + 1 < n \<and> Less h (j1 + 1) j1 then j1 + 1 else j1)
              in if \<not> Less h j i then h else down (Swap h i j) j n)"
  by pat_completeness auto
termination
  apply (relation "measure (\<lambda>(h, i, n). n - i)")
   apply simp
  apply (simp add: Let_def split: if_splits)
  apply arith
  done

declare down.simps [simp del]

definition heap_Push :: "expirationHeap \<Rightarrow> string \<Rightarrow> expirationHeap" where
  "heap_Push h x = (let h1 = Push h x in up h1 (Len h1 - 1))"

text \<open>\<open>heap.Pop\<close> on an empty heap panics in \<open>Swap(0, -1)\<close>.\<close>

definition heap_Pop :: "expirationHeap \<Rightarrow> (string \<times> expirationHeap) option" where
  "heap_Pop h =
     (if Len h = 0 then None
      else let n = Len h - 1 in Pop (down (Swap h 0 n) 0 n))"

lemma items_Swap: "items (Swap h i j) = (items h)[i := items h ! j, j := items h ! i]"
  by (simp add: Swap_def)

lemma expiresAt_Swap: "expiresAt (Swap h i j) = expiresAt h"
  by (simp add: Swap_def)

lemma Len_Swap: "Len (Swap h i j) = Len h"
  by (simp add: Len_def Swap_def)

lemma Len_down: "Len (down h i n) = Len h"
proof (induction h i n rule: down.induct)
  case (1 h i n)
  show ?case
    by (subst down.simps) (simp add: Let_def 1 Len_Swap)
qed

lemma expiresAt_down: "expiresAt (down h i n) = expiresAt h"
proof (induction h i n rule: down.induct)
  case (1 h i n)
  show ?case
    by (subst down.simps) (simp add: Let_def 1 expiresAt_Swap)
qed

lemma Len_up: "Len (up h j) = Len h"
proof (induction h j rule: up.induct)
  case (1 h j)
  show ?case
    by (subst up.simps) (simp add: Let_def 1 Len_Swap)
qed

lemma expiresAt_up: "expiresAt (up h j) = expiresAt h"
proof (induction h j rule: up.induct)
  case (1 h j)
  show ?case
    by (subst up.simps) (simp add: Let_def 1 expiresAt_Swap)
qed

lemma heap_Pop_Len: "heap_Pop h = Some (k, h') \<Longrightarrow> Len h' < Len h"
proof -
  assume a: "heap_Pop h = Some (k, h')"
  then have ne: "Len h \<noteq> 0"
    by (auto simp: heap_Pop_def split: if_splits)
  let ?d = "down (Swap h 0 (Len h - 1)) 0 (Len h - 1)"
  from a ne have p: "Pop ?d = Some (k, h')"
    by (simp add: heap_Pop_def Let_def)
  have "Len ?d = Len h"
    by (simp add: Len_down Len_Swap)
  with p ne show ?thesis
    by (auto simp: Pop_def Len_def split: if_splits)
qed

section \<open>The cache engine (lrucache.go)\<close>

text \<open>
  \<open>EvictCallback\<close> records whether \<open>opts.EvictCallback\<close> is non-nil. What the callback does
  is outside the cache; the model keeps the list of its invocations in \<open>calls\<close>, each with
  the key and the value argument (\<open>None\<close> is Go's \<open>nil\<close>). The lock is left out: the model
  runs one operation at a time. Logging has no effect on the state.
\<close>

record Options =
  LogLevel :: string
  EvictCallback :: bool

record LRU =
  db :: table
  size_lru :: int
  opts :: Options
  expHeap :: expirationHeap
  calls :: "(string \<times> string option) list"

definition NewLRUWithTTL :: "int \<Rightarrow> Options \<Rightarrow> error + LRU" where
  "NewLRUWithTTL n os =
     (if n \<le> 0 then Inl ErrSizeNotPositive
      else Inr \<lparr>db = Map.empty, size_lru = n, opts = os,
                expHeap = \<lparr>items = [], expiresAt = Map.empty\<rparr>, calls = []\<rparr>)"

definition removeItem :: "LRU \<Rightarrow> string \<Rightarrow> LRU" where
  "removeItem l key =
     (case txn_Delete (db l) key of
        Inl e \<Rightarrow> l
      | Inr t \<Rightarrow>
          let l1 = l\<lparr>db := t,
                     expHeap := (expHeap l)\<lparr>expiresAt := (expiresAt (expHeap l))(key := None)\<rparr>\<rparr>
          in if EvictCallback (opts l1) then l1\<lparr>calls := calls l1 @ [(key, None)]\<rparr> else l1)"

lemma items_removeItem: "items (expHeap (removeItem l key)) = items (expHeap l)"
  by (simp add: removeItem_def Let_def split: sum.splits)

lemma size_removeItem: "size_lru (removeItem l key) = size_lru l"
  by (simp add: removeItem_def Let_def split: sum.splits)

text \<open>
  The eviction loop of \<open>Set\<close>: \<open>for l.expHeap.Len() > l.size\<close>. \<open>heap_Pop\<close> is \<open>None\<close> only
  on an empty heap, where Go panics; with a size that is not negative the loop condition
  excludes it.
\<close>

function evict :: "LRU \<Rightarrow> LRU" where
  "evict l =
     (if size_lru l < int (Len (expHeap l)) then
        (case heap_Pop (expHeap l) of
           None \<Rightarrow> l
         | Some (evictKey, h) \<Rightarrow> evict (removeItem (l\<lparr>expHeap := h\<rparr>) evictKey))
      else l)"
  by pat_completeness auto
termination
  apply (relation "measure (\<lambda>l. Len (expHeap l))")
   apply simp
  apply (clarsimp simp: Len_def items_removeItem)
  apply (drule heap_Pop_Len)
  apply (simp add: Len_def)
  done

declare evict.simps [simp del]

definition Set ::
  "('f, 'a) stdlib \<Rightarrow> LRU \<Rightarrow> time \<Rightarrow> string \<Rightarrow> ('f, 'a) val \<Rightarrow> int \<Rightarrow> LRU \<times> error option" where
  "Set env l now key v ttl =
     (if ttl \<le> 0 then (l, Some ErrTTLNotPositive)
      else let exp = now + ttl in
        (case serialize env v of
           None \<Rightarrow> (l, Some ErrSerialize)
         | Some data \<Rightarrow>
             (case txn_Insert (db l) \<lparr>Key = key, Value = data, ExpiresAt = exp\<rparr> of
                Inl e \<Rightarrow> (l, Some (ErrInsert e))
              | Inr t \<Rightarrow>
                  let h1 = (expHeap l)\<lparr>expiresAt := (expiresAt (expHeap l))(key \<mapsto> exp)\<rparr>;
                      h2 = heap_Push h1 key
                  in (evict (l\<lparr>db := t, expHeap := h2\<rparr>), None))))"

text \<open>\<open>Get\<close> takes the current time; \<open>txn.First\<close> on a valid index does not fail.\<close>

definition Get ::
  "('f, 'a) stdlib \<Rightarrow> LRU \<Rightarrow> time \<Rightarrow> string \<Rightarrow> LRU \<times> (error + ('f, 'a) val)" where
  "Get env l now key =
     (case txn_First (db l) key of
        None \<Rightarrow> (l, Inl ErrItemNotFound)
      | Some item \<Rightarrow>
          if ExpiresAt item < now then (removeItem l key, Inl ErrItemExpired)
          else (l, Inr (deserialize env (Value item))))"

text \<open>
  \<open>Delete\<close> looks the key up with \<open>txn.First\<close>, which does not fail, and discards what it
  finds; every error of \<open>txn.Delete\<close> is returned.
\<close>

definition Delete :: "LRU \<Rightarrow> string \<Rightarrow> LRU \<times> error option" where
  "Delete l key =
     (case txn_Delete (db l) key of
        Inl e \<Rightarrow> (l, Some (ErrDelete e))
      | Inr t \<Rightarrow>
          (l\<lparr>db := t,
             expHeap := (expHeap l)\<lparr>expiresAt := (expiresAt (expHeap l))(key := None)\<rparr>\<rparr>,
           None))"

text \<open>
  \<open>Clear\<close> deletes every object that the iterator over the table yields; each of them is
  in the table, where \<open>Insert\<close> has put it, so no delete fails and the table ends empty.
\<close>

definition Clear :: "LRU \<Rightarrow> LRU \<times> error option" where
  "Clear l =
     (l\<lparr>db := Map.empty, expHeap := \<lparr>items = [], expiresAt = Map.empty\<rparr>\<rparr>, None)"

text \<open>The background sweep, run once at time \<open>now\<close>.\<close>

function removeExpiredItems :: "LRU \<Rightarrow> time \<Rightarrow> LRU" where
  "removeExpiredItems l now =
     (if 0 < Len (expHeap l) \<and> expiry (expHeap l) (items (expHeap l) ! 0) < now then
        (case heap_Pop (expHeap l) of
           None \<Rightarrow> l
         | Some (key, h) \<Rightarrow> removeExpiredItems (removeItem (l\<lparr>expHeap := h\<rparr>) key) now)
      else l)"
  by pat_completeness auto
termination
  apply (relation "measure (\<lambda>(l, now). Len (expHeap l))")
   apply simp
  apply (clarsimp simp: Len_def items_removeItem)
  apply (drule heap_Pop_Len)
  apply (simp add: Len_def)
  done

declare removeExpiredItems.simps [simp del]

subsection \<open>Reachable states\<close>

text \<open>
  The states a cache can be in: built by \<open>NewLRUWithTTL\<close>, then changed by the public
  operations and by the background sweep, each at any time.
\<close>

inductive reachable :: "('f, 'a) stdlib \<Rightarrow> LRU \<Rightarrow> bool" for env where
  new: "NewLRUWithTTL n os = Inr l \<Longrightarrow> reachable env l"
| set: "reachable env l \<Longrightarrow> reachable env (fst (Set env l now key v ttl))"
| get: "reachable env l \<Longrightarrow> reachable env (fst (Get env l now key))"
| delete: "reachable env l \<Longrightarrow> reachable env (fst (Delete l key))"
| clear: "reachable env l \<Longrightarrow> reachable env (fst (Clear l))"
| sweep: "reachable env l \<Longrightarrow> reachable env (removeExpiredItems l now)"

text \<open>
  An instance of the library parameters for running the model on integers and on strings
  that \<open>Atoi\<close> accepts: on these the codec never consults the parameters.
\<close>

definition env0 :: "(unit, unit) stdlib" where
  "env0 = \<lparr>Sprintf_f = (\<lambda>_. []), json_Marshal = (\<lambda>_. None),
           ParseFloat = (\<lambda>_. None), json_Unmarshal = (\<lambda>_. None)\<rparr>"

text \<open>
  A second instance, for running the decoder through all of its branches: it parses one
  float literal and one JSON document, each denoted by its own text.
\<close>

definition env1 :: "(string, string) stdlib" where
  "env1 = \<lparr>Sprintf_f = (\<lambda>f. f), json_Marshal = (\<lambda>v. Some v),
           ParseFloat = (\<lambda>s. if s = ''1.5'' then Some s else None),
           json_Unmarshal = (\<lambda>s. if s = ''{}'' then Some s else None)\<rparr>"

text \<open>
  Fixtures for concrete runs: options with an eviction callback, the cache that
  \<open>NewLRUWithTTL n\<close> returns for them, and the sequence of keys that popping a heap until
  it is empty yields, each with the expiration recorded for it when it is popped.
\<close>

definition opts_hook :: Options where
  "opts_hook = \<lparr>LogLevel = ''error'', EvictCallback = True\<rparr>"

definition new_cache :: "int \<Rightarrow> LRU" where
  "new_cache n = \<lparr>db = Map.empty, size_lru = n, opts = opts_hook,
                  expHeap = \<lparr>items = [], expiresAt = Map.empty\<rparr>, calls = []\<rparr>"

function drain :: "expirationHeap \<Rightarrow> (string \<times> time) list" where
  "drain h = (case heap_Pop h of None \<Rightarrow> [] | Some (k, h') \<Rightarrow> (k, expiry h k) # drain h')"
  by pat_completeness auto
termination
  apply (relation "measure Len")
   apply simp
  apply clarsimp
  apply (drule heap_Pop_Len)
  apply simp
  done

declare drain.simps [simp del]

text \<open>A sequence of \<open>Set\<close> calls, each with its time, key, value and ttl, and their results.\<close>

fun Set_all ::
  "('f, 'a) stdlib \<Rightarrow> LRU \<Rightarrow> (time \<times> string \<times> ('f, 'a) val \<times> int) list
     \<Rightarrow> LRU \<times> error option list" where
  "Set_all env l [] = (l, [])"
| "Set_all env l ((now, key, v, ttl) # cs) =
     (let (l1, r) = Set env l now key v ttl; (l2, rs) = Set_all env l1 cs in (l2, r # rs))"

text \<open>
  For the capacity bound: the key and the expiration time of a \<open>Set\<close> call, the property
  that the first key of \<open>items\<close> has the earliest recorded expiration (\<open>root_min\<close>; with
  one position left out, \<open>root_min_but\<close>), and the relation between a cache and the calls
  that filled it when none of them has evicted anything (\<open>tracks\<close>).
\<close>

definition key_of :: "time \<times> string \<times> 'v \<times> int \<Rightarrow> string" where
  "key_of c = fst (snd c)"

definition exp_of :: "time \<times> string \<times> 'v \<times> int \<Rightarrow> time" where
  "exp_of c = fst c + snd (snd (snd c))"

definition root_min :: "expirationHeap \<Rightarrow> bool" where
  "root_min h = (\<forall>k < Len h. expiry h (items h ! 0) \<le> expiry h (items h ! k))"

definition root_min_but :: "expirationHeap \<Rightarrow> nat \<Rightarrow> bool" where
  "root_min_but h j = (\<forall>k < Len h. k \<noteq> j \<longrightarrow> expiry h (items h ! 0) \<le> expiry h (items h ! k))"

definition tracks :: "LRU \<Rightarrow> (time \<times> string \<times> 'v \<times> int) list \<Rightarrow> bool" where
  "tracks l cs \<longleftrightarrow>
     mset (items (expHeap l)) = mset (map key_of cs)
     \<and> dom (db l) = set (map key_of cs)
     \<and> (\<forall>c \<in> set cs. key_of c \<noteq> []
           \<and> expiresAt (expHeap l) (key_of c) = Some (exp_of c)
           \<and> map_option ExpiresAt (db l (key_of c)) = Some (exp_of c))
     \<and> root_min (expHeap l)
     \<and> calls l = []"

definition three_sets :: "(time \<times> string \<times> (unit, unit) val \<times> int) list" where
  "three_sets = [(0, ''a'', VInt 1, 30), (1, ''b'', VInt 2, 10), (2, ''c'', VInt 3, 20)]"

text \<open>
  A cache of size 3 that has been used and is empty again (\<open>Set\<close> on "x", then
  \<open>Delete\<close> on "x"), and four \<open>Set\<close> calls on distinct keys.
\<close>

definition four_sets :: "(time \<times> string \<times> (unit, unit) val \<times> int) list" where
  "four_sets = [(1, ''a'', VInt 1, 100), (2, ''b'', VInt 2, 100),
                (3, ''x'', VInt 3, 100), (4, ''d'', VInt 4, 100)]"

definition used_cache :: LRU where
  "used_cache = fst (Delete (fst (Set env0 (new_cache 3) 0 ''x'' (VInt 0) 10)) ''x'')"

section \<open>Basic facts\<close>

lemma db_removeItem_Some: "db (removeItem l k') k = Some x \<Longrightarrow> db l k = Some x"
  by (auto simp: removeItem_def txn_Delete_def Let_def split: sum.splits if_splits)

lemma db_evict_Some: "db (evict l) k = Some x \<Longrightarrow> db l k = Some x"
proof (induction l rule: evict.induct)
  case (1 l)
  show ?case
  proof (cases "size_lru l < int (Len (expHeap l))")
    case False
    with "1.prems" show ?thesis by (simp add: evict.simps)
  next
    case True
    show ?thesis
    proof (cases "heap_Pop (expHeap l)")
      case None
      with True "1.prems" show ?thesis by (simp add: evict.simps)
    next
      case (Some p)
      obtain ek h where p: "p = (ek, h)" by (cases p)
      from True Some p "1.prems"
      have "db (evict (removeItem (l\<lparr>expHeap := h\<rparr>) ek)) k = Some x"
        by (simp add: evict.simps)
      from "1.IH"[OF True Some p[symmetric] this]
      have "db (removeItem (l\<lparr>expHeap := h\<rparr>) ek) k = Some x" .
      then show ?thesis by (auto dest: db_removeItem_Some)
    qed
  qed
qed

lemma db_sweep_Some: "db (removeExpiredItems l now) k = Some x \<Longrightarrow> db l k = Some x"
proof (induction l now rule: removeExpiredItems.induct)
  case (1 l now)
  let ?c = "0 < Len (expHeap l) \<and> expiry (expHeap l) (items (expHeap l) ! 0) < now"
  show ?case
  proof (cases ?c)
    case False
    with "1.prems" show ?thesis by (simp add: removeExpiredItems.simps)
  next
    case True
    show ?thesis
    proof (cases "heap_Pop (expHeap l)")
      case None
      with True "1.prems" show ?thesis by (simp add: removeExpiredItems.simps)
    next
      case (Some p)
      obtain ek h where p: "p = (ek, h)" by (cases p)
      from True Some p "1.prems"
      have "db (removeExpiredItems (removeItem (l\<lparr>expHeap := h\<rparr>) ek) now) k = Some x"
        by (simp add: removeExpiredItems.simps)
      from "1.IH"[OF True Some p[symmetric] this]
      have "db (removeItem (l\<lparr>expHeap := h\<rparr>) ek) k = Some x" .
      then show ?thesis by (auto dest: db_removeItem_Some)
    qed
  qed
qed

lemma reachable_no_empty_key: "reachable env l \<Longrightarrow> db l [] = None"
proof (induction rule: reachable.induct)
  case (new n os l)
  then show ?case by (auto simp: NewLRUWithTTL_def split: if_splits)
next
  case (set l now key v ttl)
  show ?case
  proof (rule ccontr)
    assume "db (fst (Set env l now key v ttl)) [] \<noteq> None"
    then obtain x where x: "db (fst (Set env l now key v ttl)) [] = Some x" by auto
    then have "db l [] = Some x"
      by (auto simp: Set_def Let_def txn_Insert_def split: if_splits option.splits sum.splits
               dest!: db_evict_Some)
    with set.IH show False by simp
  qed
next
  case (get l now key)
  show ?case
  proof (rule ccontr)
    assume "db (fst (Get env l now key)) [] \<noteq> None"
    then obtain x where x: "db (fst (Get env l now key)) [] = Some x" by auto
    then have "db l [] = Some x"
      by (auto simp: Get_def split: if_splits option.splits dest!: db_removeItem_Some)
    with get.IH show False by simp
  qed
next
  case (delete l key)
  then show ?case
    by (auto simp: Delete_def txn_Delete_def split: sum.splits if_splits)
next
  case (clear l)
  then show ?case by (simp add: Clear_def)
next
  case (sweep l now)
  show ?case
  proof (rule ccontr)
    assume "db (removeExpiredItems l now) [] \<noteq> None"
    then obtain x where "db (removeExpiredItems l now) [] = Some x" by auto
    then have "db l [] = Some x" by (rule db_sweep_Some)
    with sweep.IH show False by simp
  qed
qed

lemmas run_simps = Set_def Get_def Delete_def Clear_def removeItem_def txn_Insert_def txn_First_def txn_Delete_def
  Let_def heap_Push_def heap_Pop_def Push_def Pop_def Len_def Less_def Swap_def expiry_def
  up.simps down.simps evict.simps removeExpiredItems.simps NewLRUWithTTL_def new_cache_def opts_hook_def

lemma new_cache_eq: "0 < n \<Longrightarrow> NewLRUWithTTL n opts_hook = Inr (new_cache n)"
  by (simp add: NewLRUWithTTL_def new_cache_def)

lemma reachable_new_cache: "0 < n \<Longrightarrow> reachable env (new_cache n)"
  by (rule reachable.new[OF new_cache_eq])






lemma Atoi_42: "Atoi ''42'' = Some 42"
  by (simp add: Atoi_def is_digit_def decimal_def digit_val_def)
lemma Atoi_f: "Atoi ''1.5'' = None"
  by (simp add: Atoi_def is_digit_def decimal_def digit_val_def)
lemma Atoi_t: "Atoi ''true'' = None"
  by (simp add: Atoi_def is_digit_def decimal_def digit_val_def)
lemma Atoi_j: "Atoi ''{}'' = None"
  by (simp add: Atoi_def is_digit_def decimal_def digit_val_def)
lemma Atoi_s: "Atoi ''hello'' = None"
  by (simp add: Atoi_def is_digit_def decimal_def digit_val_def)

lemma Sprintf_d_1: "Sprintf_d 1 = ''1''"
  by (simp add: Sprintf_d_def digits_of.simps digit_char_def)

lemma Sprintf_d_2: "Sprintf_d 2 = ''2''"
  by (simp add: Sprintf_d_def digits_of.simps digit_char_def)







subsection \<open>The heap under \<open>heap.Push\<close> and \<open>heap.Pop\<close>\<close>

lemma expiry_Swap: "expiry (Swap h i j) = expiry h"
  by (rule ext) (simp add: expiry_def expiresAt_Swap)

lemma expiry_up: "expiry (up h j) = expiry h"
  by (rule ext) (simp add: expiry_def expiresAt_up)

lemma expiry_down: "expiry (down h i n) = expiry h"
  by (rule ext) (simp add: expiry_def expiresAt_down)

lemma mset_Swap: "i < Len h \<Longrightarrow> j < Len h \<Longrightarrow> mset (items (Swap h i j)) = mset (items h)"
  by (simp add: Swap_def Len_def mset_swap)

lemma mset_up: "j < Len h \<Longrightarrow> mset (items (up h j)) = mset (items h)"
proof (induction h j rule: up.induct)
  case (1 h j)
  let ?i = "(j - 1) div 2"
  show ?case
  proof (cases "?i = j \<or> \<not> Less h j ?i")
    case True
    then have "up h j = h" by (subst up.simps) (simp add: Let_def)
    then show ?thesis by simp
  next
    case False
    then have e: "up h j = up (Swap h ?i j) ?i" by (subst up.simps) (simp add: Let_def)
    have i: "?i < Len h" using "1.prems" by simp
    from False have "mset (items (up (Swap h ?i j) ?i)) = mset (items (Swap h ?i j))"
      using i by (intro "1.IH") (auto simp: Len_Swap)
    with e i "1.prems" show ?thesis by (simp add: mset_Swap)
  qed
qed

lemma root_min_but_Swap:
  assumes j: "j < Len h" and i: "i = (j - 1) div 2" and ne: "i \<noteq> j" and less: "Less h j i"
    and rm: "root_min_but h j"
  shows "root_min_but (Swap h i j) i"
proof -
  let ?xs = "items h"
  from i ne have ij: "i < j" by simp
  with j have il: "i < length ?xs" and jl: "j < length ?xs" by (simp_all add: Len_def)
  from less have lt: "expiry h (?xs ! j) < expiry h (?xs ! i)" by (simp add: Less_def)
  have other: "expiry h (?xs ! 0) \<le> expiry h (?xs ! k)" if "k < length ?xs" "k \<noteq> j" for k
    using rm that by (simp add: root_min_but_def Len_def)
  show ?thesis
    unfolding root_min_but_def Len_Swap expiry_Swap items_Swap
  proof (intro allI impI)
    fix k assume k: "k < Len h" and ki: "k \<noteq> i"
    then have kl: "k < length ?xs" by (simp add: Len_def)
    show "expiry h (?xs[i := ?xs ! j, j := ?xs ! i] ! 0)
            \<le> expiry h (?xs[i := ?xs ! j, j := ?xs ! i] ! k)"
    proof (cases "i = 0")
      case True
      with ij il jl have z: "?xs[i := ?xs ! j, j := ?xs ! i] ! 0 = ?xs ! j" by simp
      show ?thesis
      proof (cases "k = j")
        case True
        with jl have "?xs[i := ?xs ! j, j := ?xs ! i] ! k = ?xs ! i" by simp
        with z lt show ?thesis by simp
      next
        case False
        with ki kl have "?xs[i := ?xs ! j, j := ?xs ! i] ! k = ?xs ! k" by simp
        moreover from other[OF kl False] lt True have "expiry h (?xs ! j) \<le> expiry h (?xs ! k)"
          by simp
        ultimately show ?thesis using z by simp
      qed
    next
      case False
      with ij have z: "?xs[i := ?xs ! j, j := ?xs ! i] ! 0 = ?xs ! 0" by simp
      show ?thesis
      proof (cases "k = j")
        case True
        with jl have "?xs[i := ?xs ! j, j := ?xs ! i] ! k = ?xs ! i" by simp
        with z other[OF il] ne show ?thesis by simp
      next
        case False
        with ki kl have "?xs[i := ?xs ! j, j := ?xs ! i] ! k = ?xs ! k" by simp
        with z other[OF kl False] show ?thesis by simp
      qed
    qed
  qed
qed

lemma root_min_up: "j < Len h \<Longrightarrow> root_min_but h j \<Longrightarrow> root_min (up h j)"
proof (induction h j rule: up.induct)
  case (1 h j)
  let ?i = "(j - 1) div 2"
  show ?case
  proof (cases "?i = j \<or> \<not> Less h j ?i")
    case True
    then have e: "up h j = h" by (subst up.simps) (simp add: Let_def)
    have "expiry h (items h ! 0) \<le> expiry h (items h ! j)"
    proof (cases "?i = j")
      case True
      then have "j = 0" by presburger
      then show ?thesis by simp
    next
      case False
      with True have nl: "\<not> Less h j ?i" by simp
      from False "1.prems"(1) have "?i < Len h" "?i \<noteq> j" by simp_all
      with "1.prems"(2) have "expiry h (items h ! 0) \<le> expiry h (items h ! ?i)"
        by (simp add: root_min_but_def)
      with nl show ?thesis by (simp add: Less_def)
    qed
    with "1.prems"(2) have "root_min h"
      unfolding root_min_def root_min_but_def by metis
    with e show ?thesis by simp
  next
    case False
    then have e: "up h j = up (Swap h ?i j) ?i" by (subst up.simps) (simp add: Let_def)
    have i: "?i < Len (Swap h ?i j)" using "1.prems"(1) by (simp add: Len_Swap)
    from False have ne: "?i \<noteq> j" and less: "Less h j ?i" by simp_all
    have "root_min_but (Swap h ?i j) ?i"
      by (rule root_min_but_Swap[OF "1.prems"(1) refl ne less "1.prems"(2)])
    with False i have "root_min (up (Swap h ?i j) ?i)"
      by (intro "1.IH") auto
    with e show ?thesis by simp
  qed
qed

lemma nth_down: "n < Len h \<Longrightarrow> items (down h i n) ! n = items h ! n"
proof (induction h i n rule: down.induct)
  case (1 h i n)
  let ?j1 = "2 * i + 1"
  let ?j = "if ?j1 + 1 < n \<and> Less h (?j1 + 1) ?j1 then ?j1 + 1 else ?j1"
  show ?case
  proof (cases "n \<le> ?j1 \<or> \<not> Less h ?j i")
    case True
    then have "down h i n = h" by (subst down.simps) (auto simp: Let_def)
    then show ?thesis by simp
  next
    case False
    then have e: "down h i n = down (Swap h i ?j) ?j n"
      by (subst down.simps) (auto simp: Let_def split: if_splits)
    from False have jn: "?j < n" and ij: "i < n" by (auto split: if_splits)
    from False "1.prems" have "items (down (Swap h i ?j) ?j n) ! n = items (Swap h i ?j) ! n"
      by (intro "1.IH") (auto simp: Len_Swap)
    also from jn ij have "\<dots> = items h ! n"
      by (simp add: items_Swap)
    finally show ?thesis using e by simp
  qed
qed

lemma mset_down: "n \<le> Len h \<Longrightarrow> mset (items (down h i n)) = mset (items h)"
proof (induction h i n rule: down.induct)
  case (1 h i n)
  let ?j1 = "2 * i + 1"
  let ?j = "if ?j1 + 1 < n \<and> Less h (?j1 + 1) ?j1 then ?j1 + 1 else ?j1"
  show ?case
  proof (cases "n \<le> ?j1 \<or> \<not> Less h ?j i")
    case True
    then have "down h i n = h" by (subst down.simps) (auto simp: Let_def)
    then show ?thesis by simp
  next
    case False
    then have e: "down h i n = down (Swap h i ?j) ?j n"
      by (subst down.simps) (auto simp: Let_def split: if_splits)
    from False have jn: "?j < n" and ij: "i < n" by (auto split: if_splits)
    from False "1.prems" have "mset (items (down (Swap h i ?j) ?j n)) = mset (items (Swap h i ?j))"
      by (intro "1.IH") (auto simp: Len_Swap)
    also from jn ij "1.prems" have "\<dots> = mset (items h)"
      by (intro mset_Swap) auto
    finally show ?thesis using e by simp
  qed
qed

lemma heap_Pop_root:
  assumes "items h \<noteq> []"
  shows "\<exists>h'. heap_Pop h = Some (items h ! 0, h')
            \<and> add_mset (items h ! 0) (mset (items h')) = mset (items h)
            \<and> expiresAt h' = expiresAt h"
proof -
  let ?n = "Len h - 1"
  let ?s = "Swap h 0 ?n"
  let ?d = "down ?s 0 ?n"
  from assms have pos: "0 < Len h" by (simp add: Len_def)
  then have n: "?n < Len ?s" by (simp add: Len_Swap)
  have len: "Len ?d = Len h" by (simp add: Len_down Len_Swap)
  with pos have ne: "items ?d \<noteq> []" by (auto simp: Len_def)
  have "last (items ?d) = items ?d ! ?n"
    using ne len by (simp add: last_conv_nth Len_def)
  also have "\<dots> = items ?s ! ?n" by (rule nth_down[OF n])
  also have "\<dots> = items h ! 0" using pos by (simp add: items_Swap Len_def)
  finally have l: "last (items ?d) = items h ! 0" .
  have m: "mset (items ?d) = mset (items h)"
    using pos by (simp add: mset_down Len_Swap mset_Swap)
  from ne have "add_mset (last (items ?d)) (mset (butlast (items ?d))) = mset (items ?d)"
    by (metis append_butlast_last_id mset.simps(2) mset_append union_mset_add_mset_right add.right_neutral mset.simps(1) add_mset_add_single)
  with l m have a: "add_mset (items h ! 0) (mset (butlast (items ?d))) = mset (items h)" by simp
  from pos ne l have "heap_Pop h = Some (items h ! 0, ?d\<lparr>items := butlast (items ?d)\<rparr>)"
    by (simp add: heap_Pop_def Pop_def Let_def)
  with a show ?thesis by (simp add: expiresAt_down expiresAt_Swap)
qed

lemma Set_ok_unfold:
  assumes "Set env l now key v ttl = (l', None)"
  shows "\<exists>data. key \<noteq> [] \<and>
           l' = evict (l\<lparr>db := (db l)(key \<mapsto> \<lparr>Key = key, Value = data, ExpiresAt = now + ttl\<rparr>),
                         expHeap := heap_Push ((expHeap l)\<lparr>expiresAt :=
                                      (expiresAt (expHeap l))(key \<mapsto> now + ttl)\<rparr>) key\<rparr>)"
  using assms
  by (auto simp: Set_def Let_def txn_Insert_def split: if_splits option.splits sum.splits)

lemma evict_within: "\<not> size_lru l < int (Len (expHeap l)) \<Longrightarrow> evict l = l"
  by (subst evict.simps) simp

lemma tracks_push:
  assumes t: "tracks l cs" and fresh: "key \<notin> set (map key_of cs)" and ne: "key \<noteq> []"
  shows "tracks (l\<lparr>db := (db l)(key \<mapsto> \<lparr>Key = key, Value = data, ExpiresAt = now + ttl\<rparr>),
                   expHeap := heap_Push ((expHeap l)\<lparr>expiresAt :=
                                (expiresAt (expHeap l))(key \<mapsto> now + ttl)\<rparr>) key\<rparr>)
                (cs @ [(now, key, v, ttl)])"
proof -
  let ?h = "expHeap l"
  let ?xs = "items ?h"
  let ?h1 = "?h\<lparr>expiresAt := (expiresAt ?h)(key \<mapsto> now + ttl)\<rparr>"
  let ?hp = "Push ?h1 key"
  let ?j = "Len ?hp - 1"
  let ?h2 = "up ?hp ?j"
  from t have ms: "mset ?xs = mset (map key_of cs)" by (simp add: tracks_def)
  then have sx: "set ?xs = set (map key_of cs)" by (metis set_mset_mset)
  with fresh have kx: "key \<notin> set ?xs" by simp
  have ip: "items ?hp = ?xs @ [key]" by (simp add: Push_def)
  have lp: "Len ?hp = Suc (length ?xs)" by (simp add: Len_def Push_def)
  then have j: "?j = length ?xs" and jl: "?j < Len ?hp" by simp_all
  have ep: "expiresAt ?hp = (expiresAt ?h)(key \<mapsto> now + ttl)" by (simp add: Push_def)
  have h2: "heap_Push ?h1 key = ?h2" by (simp add: heap_Push_def Let_def)
  have m2: "mset (items ?h2) = mset (map key_of (cs @ [(now, key, v, ttl)]))"
    using mset_up[OF jl] ip ms by (simp add: key_of_def)
  have e2: "expiresAt ?h2 = (expiresAt ?h)(key \<mapsto> now + ttl)"
    by (simp add: expiresAt_up ep)
  have old: "expiry ?hp (?xs ! k) = expiry ?h (?xs ! k)" if "k < length ?xs" for k
  proof -
    from that kx have "?xs ! k \<noteq> key" by (metis nth_mem)
    then show ?thesis by (simp add: expiry_def ep)
  qed
  from t have rm: "root_min ?h" by (simp add: tracks_def)
  have "root_min_but ?hp ?j"
    unfolding root_min_but_def
  proof (intro allI impI)
    fix k assume k: "k < Len ?hp" and kj: "k \<noteq> ?j"
    with lp j have kl: "k < length ?xs" by simp
    then have zl: "0 < length ?xs" by (cases ?xs) simp_all
    from rm kl have "expiry ?h (?xs ! 0) \<le> expiry ?h (?xs ! k)"
      by (simp add: root_min_def Len_def)
    with old[OF kl] old[OF zl] kl zl
    show "expiry ?hp (items ?hp ! 0) \<le> expiry ?hp (items ?hp ! k)"
      by (simp add: ip nth_append)
  qed
  from root_min_up[OF jl this] have r2: "root_min ?h2" .
  have each: "key_of c \<noteq> [] \<and> ((expiresAt ?h)(key \<mapsto> now + ttl)) (key_of c) = Some (exp_of c)
      \<and> map_option ExpiresAt (((db l)(key \<mapsto> \<lparr>Key = key, Value = data, ExpiresAt = now + ttl\<rparr>))
            (key_of c)) = Some (exp_of c)"
    if "c \<in> set (cs @ [(now, key, v, ttl)])" for c
  proof (cases "c \<in> set cs")
    case True
    with fresh have "key_of c \<noteq> key" by auto
    with t True show ?thesis by (simp add: tracks_def)
  next
    case False
    with that have "c = (now, key, v, ttl)" by simp
    with ne show ?thesis by (simp add: key_of_def exp_of_def)
  qed
  from t have d: "dom (db l) = set (map key_of cs)" and c: "calls l = []"
    by (simp_all add: tracks_def)
  show ?thesis
    unfolding tracks_def h2
    using m2 e2 r2 each d c by (simp add: key_of_def)
qed

lemma tracks_evict_one:
  assumes t: "tracks l cs" and len: "int (length cs) = size_lru l + 1" and pos: "0 < size_lru l"
    and hook: "EvictCallback (opts l)" and dist: "distinct (map key_of cs)"
  shows "\<exists>e \<in> set cs. (\<forall>c \<in> set cs. exp_of e \<le> exp_of c)
           \<and> calls (evict l) = [(key_of e, None)]
           \<and> dom (db (evict l)) = set (map key_of cs) - {key_of e}
           \<and> (\<forall>c \<in> set cs. key_of c \<noteq> key_of e
                 \<longrightarrow> map_option ExpiresAt (db (evict l) (key_of c)) = Some (exp_of c))"
proof -
  let ?h = "expHeap l"
  let ?xs = "items ?h"
  from t have ms: "mset ?xs = mset (map key_of cs)" by (simp add: tracks_def)
  then have sx: "set ?xs = set (map key_of cs)" by (metis set_mset_mset)
  from ms have lx: "length ?xs = length cs" by (metis size_mset length_map)
  with len pos have ne: "?xs \<noteq> []" by auto
  then have "?xs ! 0 \<in> set ?xs" by simp
  with sx obtain e where e: "e \<in> set cs" and ke: "key_of e = ?xs ! 0" by auto
  from t have rm: "root_min ?h" by (simp add: tracks_def)
  have ex: "expiry ?h (key_of c) = exp_of c" if "c \<in> set cs" for c
    using t that by (simp add: tracks_def expiry_def)
  have minimal: "exp_of e \<le> exp_of c" if "c \<in> set cs" for c
  proof -
    from that sx have "key_of c \<in> set ?xs" by auto
    then obtain k where k: "k < length ?xs" and kk: "?xs ! k = key_of c"
      by (auto simp: in_set_conv_nth)
    from rm k have "expiry ?h (?xs ! 0) \<le> expiry ?h (?xs ! k)"
      by (simp add: root_min_def Len_def)
    with kk ke ex[OF that] ex[OF e] show ?thesis by simp
  qed
  from heap_Pop_root[OF ne] obtain h' where
    pop: "heap_Pop ?h = Some (key_of e, h')"
    and mh: "add_mset (key_of e) (mset (items h')) = mset ?xs"
    and eh: "expiresAt h' = expiresAt ?h" using ke by auto
  from mh have "Suc (length (items h')) = length ?xs"
    by (metis size_add_mset size_mset)
  with lx len have lh: "int (Len h') = size_lru l" by (simp add: Len_def)
  let ?l2 = "removeItem (l\<lparr>expHeap := h'\<rparr>) (key_of e)"
  from lx len have "size_lru l < int (Len ?h)" by (simp add: Len_def)
  with pop have ev: "evict l = evict ?l2"
    by (subst evict.simps) simp
  from t e have kne: "key_of e \<noteq> []" and din: "db l (key_of e) \<noteq> None"
    by (auto simp: tracks_def)
  from t have c0: "calls l = []" by (simp add: tracks_def)
  from kne din hook c0 have
    l2: "?l2 = l\<lparr>db := (db l)(key_of e := None),
                 expHeap := h'\<lparr>expiresAt := (expiresAt h')(key_of e := None)\<rparr>,
                 calls := [(key_of e, None)]\<rparr>"
    by (auto simp: removeItem_def txn_Delete_def Let_def)
  from l2 lh have "\<not> size_lru ?l2 < int (Len (expHeap ?l2))"
    by (simp add: Len_def)
  then have "evict ?l2 = ?l2" by (rule evict_within)
  with ev l2 have r: "evict l = l\<lparr>db := (db l)(key_of e := None),
                 expHeap := h'\<lparr>expiresAt := (expiresAt h')(key_of e := None)\<rparr>,
                 calls := [(key_of e, None)]\<rparr>" by simp
  from t have d: "dom (db l) = set (map key_of cs)" by (simp add: tracks_def)
  have rest: "map_option ExpiresAt (db (evict l) (key_of c)) = Some (exp_of c)"
    if "c \<in> set cs" "key_of c \<noteq> key_of e" for c
    using t that by (simp add: r tracks_def)
  from d have dd: "dom (db (evict l)) = set (map key_of cs) - {key_of e}"
    by (simp add: r)
  have cc: "calls (evict l) = [(key_of e, None)]" by (simp add: r)
  show ?thesis
  proof (rule bexI[OF _ e], intro conjI)
    show "\<forall>c \<in> set cs. exp_of e \<le> exp_of c" using minimal by blast
    show "calls (evict l) = [(key_of e, None)]" by (rule cc)
    show "dom (db (evict l)) = set (map key_of cs) - {key_of e}" by (rule dd)
    show "\<forall>c \<in> set cs. key_of c \<noteq> key_of e
            \<longrightarrow> map_option ExpiresAt (db (evict l) (key_of c)) = Some (exp_of c)"
      using rest by blast
  qed
qed

lemma Set_all_snoc:
  "Set_all env l (cs @ [(now, key, v, ttl)]) =
     (case Set_all env l cs of (l1, rs) \<Rightarrow>
        case Set env l1 now key v ttl of (l2, r) \<Rightarrow> (l2, rs @ [r]))"
proof (induction cs arbitrary: l)
  case Nil
  show ?case by (simp split: prod.splits)
next
  case (Cons c cs)
  obtain now' key' v' ttl' where c: "c = (now', key', v', ttl')" by (cases c)
  show ?case
    by (simp add: c Cons.IH split: prod.splits)
qed

lemma Set_all_tracks:
  assumes "tracks l cs0" and "distinct (map key_of (cs0 @ cs))"
    and "int (length (cs0 @ cs)) \<le> size_lru l"
    and "Set_all env l cs = (l', rs)" and "\<forall>r \<in> set rs. r = None"
  shows "tracks l' (cs0 @ cs) \<and> size_lru l' = size_lru l \<and> opts l' = opts l"
  using assms
proof (induction cs arbitrary: l cs0 rs)
  case Nil
  then show ?case by simp
next
  case (Cons c cs)
  obtain now key v ttl where c: "c = (now, key, v, ttl)" by (cases c)
  obtain l1 r where s: "Set env l now key v ttl = (l1, r)" by (cases "Set env l now key v ttl")
  obtain l2 rs' where a: "Set_all env l1 cs = (l2, rs')" by (cases "Set_all env l1 cs")
  from Cons.prems(4) c s a have l': "l' = l2" and rs: "rs = r # rs'" by simp_all
  with Cons.prems(5) have r: "r = None" and rs': "\<forall>r \<in> set rs'. r = None" by simp_all
  let ?p = "\<lambda>data. l\<lparr>db := (db l)(key \<mapsto> \<lparr>Key = key, Value = data, ExpiresAt = now + ttl\<rparr>),
                   expHeap := heap_Push ((expHeap l)\<lparr>expiresAt :=
                                (expiresAt (expHeap l))(key \<mapsto> now + ttl)\<rparr>) key\<rparr>"
  from Set_ok_unfold[OF s[unfolded r]] obtain data where
    ne: "key \<noteq> []" and l1: "l1 = evict (?p data)" by blast
  from Cons.prems(2) c have fresh: "key \<notin> set (map key_of cs0)"
    by (auto simp: key_of_def)
  from tracks_push[OF Cons.prems(1) fresh ne, where data = data and now = now and ttl = ttl and v = v]
  have tp: "tracks (?p data) (cs0 @ [c])" by (simp add: c)
  then have "mset (items (expHeap (?p data))) = mset (map key_of (cs0 @ [c]))"
    by (simp add: tracks_def)
  then have "length (items (expHeap (?p data))) = length (cs0 @ [c])"
    by (metis size_mset length_map)
  with Cons.prems(3) have "\<not> size_lru (?p data) < int (Len (expHeap (?p data)))"
    by (simp add: Len_def)
  then have "evict (?p data) = ?p data" by (rule evict_within)
  with l1 have l1': "l1 = ?p data" by simp
  with tp have t1: "tracks l1 ((cs0 @ [c]) @ cs)" if "cs = []"
    using that by simp
  from l1' have sz: "size_lru l1 = size_lru l" and op: "opts l1 = opts l" by simp_all
  from tp l1' have tp1: "tracks l1 (cs0 @ [c])" by simp
  from Cons.prems(2) have d1: "distinct (map key_of ((cs0 @ [c]) @ cs))" by simp
  from Cons.prems(3) sz have n1: "int (length ((cs0 @ [c]) @ cs)) \<le> size_lru l1" by simp
  from a l' have a': "Set_all env l1 cs = (l', rs')" by simp
  from Cons.IH[OF tp1 d1 n1 a' rs'] sz op show ?case by simp
qed

lemma tracks_new: "NewLRUWithTTL n os = Inr l \<Longrightarrow> tracks l []"
  by (auto simp: NewLRUWithTTL_def tracks_def root_min_def Len_def split: if_splits)


section \<open>Claims\<close>

text \<open>
  C3. In every reachable state, \<open>Get\<close> on a key that is in the store with an expiration
  time earlier than the current time fails with \<open>ErrItemExpired\<close> and removes the item
  from the store, so that the next \<open>Get\<close> on the key, at any time, fails with
  \<open>ErrItemNotFound\<close>.
\<close>

theorem Get_expired_then_not_found:
  assumes "reachable env l" and "db l key = Some item" and "ExpiresAt item < now"
  shows "snd (Get env l now key) = Inl ErrItemExpired
       \<and> db (fst (Get env l now key)) key = None
       \<and> snd (Get env (fst (Get env l now key)) now' key) = Inl ErrItemNotFound"
proof -
  from assms(1) have "db l [] = None" by (rule reachable_no_empty_key)
  with assms(2) have ne: "key \<noteq> []" by auto
  with assms(2,3) show ?thesis
    by (simp add: Get_def txn_First_def removeItem_def txn_Delete_def Let_def)
qed

theorem Get_expired_then_not_found_witness:
  "reachable env0 (fst (Set env0 (new_cache 2) 0 ''k'' (VInt 1) 10))
   \<and> db (fst (Set env0 (new_cache 2) 0 ''k'' (VInt 1) 10)) ''k''
       = Some \<lparr>Key = ''k'', Value = ''1'', ExpiresAt = 10\<rparr>
   \<and> ExpiresAt \<lparr>Key = ''k'', Value = ''1'', ExpiresAt = 10\<rparr> < 11
   \<and> snd (Get env0 (fst (Set env0 (new_cache 2) 0 ''k'' (VInt 1) 10)) 11 ''k'') = Inl ErrItemExpired
   \<and> db (fst (Get env0 (fst (Set env0 (new_cache 2) 0 ''k'' (VInt 1) 10)) 11 ''k'')) ''k'' = None
   \<and> snd (Get env0 (fst (Get env0 (fst (Set env0 (new_cache 2) 0 ''k'' (VInt 1) 10)) 11 ''k'')) 11 ''k'')
       = Inl ErrItemNotFound"
proof -
  let ?l = "fst (Set env0 (new_cache 2) 0 ''k'' (VInt 1) 10)"
  have r: "reachable env0 ?l"
    by (rule reachable.set) (rule reachable_new_cache, simp)
  have d: "db ?l ''k'' = Some \<lparr>Key = ''k'', Value = ''1'', ExpiresAt = 10\<rparr>"
    by (simp add: run_simps Sprintf_d_def digits_of.simps digit_char_def)
  have e: "ExpiresAt \<lparr>Key = ''k'', Value = ''1'', ExpiresAt = 10\<rparr> < 11" by simp
  from Get_expired_then_not_found[OF r d e, of 11] r d e show ?thesis by simp
qed

text \<open>
  C8. \<open>Set\<close> with a ttl that is not positive fails with the error "ttl must be positive",
  and whenever \<open>Set\<close> returns an error (non-positive ttl, serialization failure or a failed
  insert into the table) the state it returns is the state it was given.
\<close>

theorem Set_failure_leaves_state:
  "(ttl \<le> 0 \<longrightarrow> Set env l now key v ttl = (l, Some ErrTTLNotPositive))
   \<and> (Set env l now key v ttl = (l', Some e) \<longrightarrow> l' = l)"
  by (auto simp: Set_def Let_def split: option.splits sum.splits if_splits)

theorem Set_failure_leaves_state_witness:
  "(0::int) \<le> 0
   \<and> Set env0 (new_cache 2) 5 ''k'' (VInt 1) 0 = (new_cache 2, Some ErrTTLNotPositive)
   \<and> Set env0 (new_cache 2) 5 [] (VInt 1) 10 = (new_cache 2, Some (ErrInsert MissingPrimaryIndex))"
proof -
  have a: "Set env0 (new_cache 2) 5 [] (VInt 1) 10
           = (fst (Set env0 (new_cache 2) 5 [] (VInt 1) 10), Some (ErrInsert MissingPrimaryIndex))"
    by (simp add: Set_def txn_Insert_def)
  from Set_failure_leaves_state[of 0 env0 "new_cache 2" 5 "''k''" "VInt 1"
         "fst (Set env0 (new_cache 2) 5 [] (VInt 1) 10)" "ErrTTLNotPositive"]
       Set_failure_leaves_state[of 10 env0 "new_cache 2" 5 "[]" "VInt 1"
         "fst (Set env0 (new_cache 2) 5 [] (VInt 1) 10)" "ErrInsert MissingPrimaryIndex"] a
  show ?thesis by simp
qed

text \<open>
  C9. \<open>Get\<close> on a key that is in the store and not expired returns the decoded value and
  the state unchanged: the store, the expiry index, every expiration time and the list of
  callback invocations are the ones before the call.
\<close>

theorem Get_live_leaves_state:
  assumes "db l key = Some item" and "\<not> ExpiresAt item < now"
  shows "Get env l now key = (l, Inr (deserialize env (Value item)))"
  using assms by (simp add: Get_def txn_First_def)

theorem Get_live_leaves_state_witness:
  "db (fst (Set env0 (new_cache 2) 0 ''k'' (VInt 1) 10)) ''k''
     = Some \<lparr>Key = ''k'', Value = ''1'', ExpiresAt = 10\<rparr>
   \<and> \<not> ExpiresAt \<lparr>Key = ''k'', Value = ''1'', ExpiresAt = 10\<rparr> < 10
   \<and> Get env0 (fst (Set env0 (new_cache 2) 0 ''k'' (VInt 1) 10)) 10 ''k''
       = (fst (Set env0 (new_cache 2) 0 ''k'' (VInt 1) 10), Inr (VInt 1))"
proof -
  let ?l = "fst (Set env0 (new_cache 2) 0 ''k'' (VInt 1) 10)"
  have d: "db ?l ''k'' = Some \<lparr>Key = ''k'', Value = ''1'', ExpiresAt = 10\<rparr>"
    by (simp add: run_simps Sprintf_d_def digits_of.simps digit_char_def)
  have e: "\<not> ExpiresAt \<lparr>Key = ''k'', Value = ''1'', ExpiresAt = 10\<rparr> < 10" by simp
  have v: "deserialize env0 ''1'' = VInt 1"
    by (simp add: deserialize_def Atoi_def is_digit_def decimal_def digit_val_def)
  from Get_live_leaves_state[OF d e, of env0] d e v show ?thesis by simp
qed


text \<open>
  C7. \<open>deserialize\<close> tries the parsers in this order: integer, float, boolean, JSON, and
  returns the raw text when all four fail; each result is returned only when every earlier
  parser has failed. The bytes "42" decode as the integer 42 whatever the float and JSON
  parsers do.
\<close>

theorem deserialize_precedence:
  "(Atoi data = Some i \<longrightarrow> deserialize env data = VInt i)
   \<and> (Atoi data = None \<and> ParseFloat env data = Some f \<longrightarrow> deserialize env data = VFloat64 f)
   \<and> (Atoi data = None \<and> ParseFloat env data = None \<and> ParseBool data = Some b
        \<longrightarrow> deserialize env data = VBool b)
   \<and> (Atoi data = None \<and> ParseFloat env data = None \<and> ParseBool data = None
        \<and> json_Unmarshal env data = Some v \<longrightarrow> deserialize env data = VOther v)
   \<and> (Atoi data = None \<and> ParseFloat env data = None \<and> ParseBool data = None
        \<and> json_Unmarshal env data = None \<longrightarrow> deserialize env data = VString data)
   \<and> deserialize env ''42'' = VInt 42"
  by (simp add: deserialize_def Atoi_def is_digit_def decimal_def digit_val_def)

theorem deserialize_precedence_witness:
  "Atoi ''42'' = Some 42 \<and> deserialize env1 ''42'' = VInt 42
   \<and> Atoi ''1.5'' = None \<and> ParseFloat env1 ''1.5'' = Some ''1.5''
   \<and> deserialize env1 ''1.5'' = VFloat64 ''1.5''
   \<and> Atoi ''true'' = None \<and> ParseFloat env1 ''true'' = None \<and> ParseBool ''true'' = Some True
   \<and> deserialize env1 ''true'' = VBool True
   \<and> Atoi ''{}'' = None \<and> ParseFloat env1 ''{}'' = None \<and> ParseBool ''{}'' = None
   \<and> json_Unmarshal env1 ''{}'' = Some ''{}'' \<and> deserialize env1 ''{}'' = VOther ''{}''
   \<and> Atoi ''hello'' = None \<and> ParseFloat env1 ''hello'' = None \<and> ParseBool ''hello'' = None
   \<and> json_Unmarshal env1 ''hello'' = None \<and> deserialize env1 ''hello'' = VString ''hello''"
  using deserialize_precedence[of "''42''" 42 env1]
        deserialize_precedence[of "''1.5''" _ env1 "''1.5''"]
        deserialize_precedence[of "''true''" _ env1 _ True]
        deserialize_precedence[of "''{}''" _ env1 _ _ "''{}''"]
        deserialize_precedence[of "''hello''" _ env1]
  by (simp add: Atoi_42 Atoi_f Atoi_t Atoi_j Atoi_s env1_def ParseBool_def)

text \<open>
  C5, as the code has it. In a reachable state, \<open>Delete\<close> on a key that is in the store
  succeeds, removes the item from the store and removes the expiration recorded for the key
  in the expiry index; \<open>Delete\<close> on a key that is not in the store returns an error and
  leaves the state as it was. The counterexample runs \<open>Delete\<close> on a missing key of a new
  cache, and shows the key that stays in \<open>items\<close> after a successful \<open>Delete\<close>.
\<close>

theorem Delete_present_or_absent:
  assumes "reachable env l"
  shows "(db l key \<noteq> None \<longrightarrow>
            snd (Delete l key) = None
            \<and> db (fst (Delete l key)) = (db l)(key := None)
            \<and> expiresAt (expHeap (fst (Delete l key))) = (expiresAt (expHeap l))(key := None))
       \<and> (db l key = None \<longrightarrow> (\<exists>e. Delete l key = (l, Some (ErrDelete e))))"
proof -
  from assms have "db l [] = None" by (rule reachable_no_empty_key)
  then show ?thesis
    by (auto simp: Delete_def txn_Delete_def)
qed

theorem Delete_present_or_absent_witness:
  "reachable env0 (fst (Set env0 (new_cache 2) 0 ''k'' (VInt 1) 10))
   \<and> db (fst (Set env0 (new_cache 2) 0 ''k'' (VInt 1) 10)) ''k'' \<noteq> None
   \<and> db (fst (Set env0 (new_cache 2) 0 ''k'' (VInt 1) 10)) ''j'' = None
   \<and> snd (Delete (fst (Set env0 (new_cache 2) 0 ''k'' (VInt 1) 10)) ''k'') = None
   \<and> db (fst (Delete (fst (Set env0 (new_cache 2) 0 ''k'' (VInt 1) 10)) ''k'')) ''k'' = None
   \<and> expiresAt (expHeap (fst (Delete (fst (Set env0 (new_cache 2) 0 ''k'' (VInt 1) 10)) ''k''))) ''k''
       = None
   \<and> (\<exists>e. Delete (fst (Set env0 (new_cache 2) 0 ''k'' (VInt 1) 10)) ''j''
           = (fst (Set env0 (new_cache 2) 0 ''k'' (VInt 1) 10), Some (ErrDelete e)))"
proof -
  let ?l = "fst (Set env0 (new_cache 2) 0 ''k'' (VInt 1) 10)"
  have r: "reachable env0 ?l"
    by (rule reachable.set) (rule reachable_new_cache, simp)
  have d: "db ?l ''k'' \<noteq> None"
    by (simp add: run_simps Sprintf_d_1)
  have j: "db ?l ''j'' = None"
    by (simp add: run_simps Sprintf_d_1)
  from Delete_present_or_absent[OF r, of "''k''"] Delete_present_or_absent[OF r, of "''j''"] r d j
  show ?thesis by simp
qed

theorem Delete_counterexample:
  "snd (Delete (new_cache 2) ''k'') = Some (ErrDelete NotFound)
   \<and> snd (Delete (fst (Set env0 (new_cache 2) 0 ''k'' (VInt 1) 10)) ''k'') = None
   \<and> items (expHeap (fst (Delete (fst (Set env0 (new_cache 2) 0 ''k'' (VInt 1) 10)) ''k''))) = [''k'']"
  by code_simp

text \<open>
  C1, evaluated where the code departs from it. Two \<open>Set\<close> calls on the same key leave
  the key twice in \<open>items\<close> for one item in the store; in a cache of size 1 the second call
  then evicts the key it has just stored and reports it to the callback.
\<close>

theorem Set_same_key_twice:
  "snd (Set_all env0 (new_cache 2) [(0, ''k'', VInt 1, 10), (1, ''k'', VInt 2, 10)]) = [None, None]
   \<and> db (fst (Set_all env0 (new_cache 2) [(0, ''k'', VInt 1, 10), (1, ''k'', VInt 2, 10)])) ''k''
       = Some \<lparr>Key = ''k'', Value = ''2'', ExpiresAt = 11\<rparr>
   \<and> items (expHeap (fst (Set_all env0 (new_cache 2) [(0, ''k'', VInt 1, 10), (1, ''k'', VInt 2, 10)])))
       = [''k'', ''k'']
   \<and> snd (Set_all env0 (new_cache 1) [(0, ''k'', VInt 1, 10), (1, ''k'', VInt 2, 10)]) = [None, None]
   \<and> db (fst (Set_all env0 (new_cache 1) [(0, ''k'', VInt 1, 10), (1, ''k'', VInt 2, 10)])) ''k''
       = None
   \<and> calls (fst (Set_all env0 (new_cache 1) [(0, ''k'', VInt 1, 10), (1, ''k'', VInt 2, 10)]))
       = [(''k'', None)]"
  by code_simp

text \<open>
  C6, evaluated where the code departs from it. After \<open>Set\<close> on "a", on "b" and again on
  "a" with a later expiration, popping the heap until it is empty yields the recorded
  expirations 32, 21, 32.
\<close>

theorem pop_order_after_second_Set:
  "snd (Set_all env0 (new_cache 3) [(0, ''a'', VInt 1, 10), (1, ''b'', VInt 1, 20), (2, ''a'', VInt 1, 30)])
     = [None, None, None]
   \<and> drain (expHeap (fst (Set_all env0 (new_cache 3)
        [(0, ''a'', VInt 1, 10), (1, ''b'', VInt 1, 20), (2, ''a'', VInt 1, 30)])))
     = [(''a'', 32), (''b'', 21), (''a'', 32)]"
  by code_simp




subsection \<open>The capacity bound on a cache that has never been used\<close>

text \<open>
  In a cache that \<open>NewLRUWithTTL\<close> has just returned, of size \<open>n\<close> and with an eviction
  callback, after \<open>n + 1\<close> successful \<open>Set\<close> calls on distinct keys exactly one key \<open>e\<close>
  has been evicted: its recorded expiration is the earliest of all \<open>n + 1\<close>, the callback
  has been invoked exactly once, for \<open>e\<close> with a \<open>nil\<close> value, \<open>Get\<close> on \<open>e\<close> fails with
  \<open>ErrItemNotFound\<close>, and at any time \<open>t\<close> before every expiration \<open>Get\<close> succeeds on each
  of the other keys, so that exactly \<open>n\<close> keys are retrievable.
\<close>

theorem capacity_eviction:
  assumes new: "NewLRUWithTTL n os = Inr l0" and hook: "EvictCallback os"
    and len: "int (length cs) = n + 1" and dist: "distinct (map key_of cs)"
    and run: "Set_all env l0 cs = (l, rs)" and ok: "\<forall>r \<in> set rs. r = None"
    and live: "\<forall>c \<in> set cs. t \<le> exp_of c"
  shows "\<exists>e \<in> set cs.
           (\<forall>c \<in> set cs. exp_of e \<le> exp_of c)
           \<and> calls l = [(key_of e, None)]
           \<and> Get env l t (key_of e) = (l, Inl ErrItemNotFound)
           \<and> (\<forall>c \<in> set cs. key_of c \<noteq> key_of e \<longrightarrow> (\<exists>v. Get env l t (key_of c) = (l, Inr v)))
           \<and> card {k. \<exists>v. snd (Get env l t k) = Inr v} = nat n"
proof -
  from new have pos: "0 < n" and sz0: "size_lru l0 = n" and op0: "opts l0 = os"
    by (auto simp: NewLRUWithTTL_def split: if_splits)
  from len pos have "cs \<noteq> []" by auto
  then obtain cs1 c where cs: "cs = cs1 @ [c]" by (metis rev_exhaust)
  obtain now key v ttl where c: "c = (now, key, v, ttl)" by (cases c)
  obtain l1 rs1 where a: "Set_all env l0 cs1 = (l1, rs1)" by (cases "Set_all env l0 cs1")
  obtain l2 r where s: "Set env l1 now key v ttl = (l2, r)" by (cases "Set env l1 now key v ttl")
  from run cs c a s have l: "l = l2" and rs: "rs = rs1 @ [r]"
    by (simp_all add: Set_all_snoc)
  with ok have r: "r = None" and ok1: "\<forall>r \<in> set rs1. r = None" by simp_all
  from dist cs have d1: "distinct (map key_of ([] @ cs1))" by simp
  from len cs sz0 have n1: "int (length ([] @ cs1)) \<le> size_lru l0" by simp
  from Set_all_tracks[OF tracks_new[OF new] d1 n1 a ok1]
  have t1: "tracks l1 cs1" and sz1: "size_lru l1 = n" and op1: "opts l1 = os"
    by (simp_all add: sz0 op0)
  let ?p = "\<lambda>data. l1\<lparr>db := (db l1)(key \<mapsto> \<lparr>Key = key, Value = data, ExpiresAt = now + ttl\<rparr>),
                   expHeap := heap_Push ((expHeap l1)\<lparr>expiresAt :=
                                (expiresAt (expHeap l1))(key \<mapsto> now + ttl)\<rparr>) key\<rparr>"
  from Set_ok_unfold[OF s[unfolded r]] obtain data where
    ne: "key \<noteq> []" and l2: "l2 = evict (?p data)" by blast
  from dist cs c have fresh: "key \<notin> set (map key_of cs1)"
    by (auto simp: key_of_def)
  from tracks_push[OF t1 fresh ne, where data = data and now = now and ttl = ttl and v = v]
  have tp: "tracks (?p data) cs" by (simp add: c cs)
  have lenp: "int (length cs) = size_lru (?p data) + 1" using len sz1 by simp
  have posp: "0 < size_lru (?p data)" using pos sz1 by simp
  have hookp: "EvictCallback (opts (?p data))" using hook op1 by simp
  from tracks_evict_one[OF tp lenp posp hookp dist] l l2
  obtain e where e: "e \<in> set cs" and mn: "\<forall>c \<in> set cs. exp_of e \<le> exp_of c"
    and cl: "calls l = [(key_of e, None)]"
    and dm: "dom (db l) = set (map key_of cs) - {key_of e}"
    and rest: "\<forall>c \<in> set cs. key_of c \<noteq> key_of e
                 \<longrightarrow> map_option ExpiresAt (db l (key_of c)) = Some (exp_of c)"
    by auto
  from dm have "db l (key_of e) = None" by auto
  then have nf: "Get env l t (key_of e) = (l, Inl ErrItemNotFound)"
    by (simp add: Get_def txn_First_def)
  have got: "\<exists>v. Get env l t (key_of c) = (l, Inr v)"
    if "c \<in> set cs" "key_of c \<noteq> key_of e" for c
  proof -
    from rest that obtain item where "db l (key_of c) = Some item" "ExpiresAt item = exp_of c"
      by auto
    with live that(1) show ?thesis by (auto simp: Get_def txn_First_def)
  qed
  have "{k. \<exists>v. snd (Get env l t k) = Inr v} = set (map key_of cs) - {key_of e}"
  proof (intro set_eqI iffI)
    fix k assume "k \<in> {k. \<exists>v. snd (Get env l t k) = Inr v}"
    then have "db l k \<noteq> None"
      by (auto simp: Get_def txn_First_def split: option.splits)
    with dm show "k \<in> set (map key_of cs) - {key_of e}" by auto
  next
    fix k assume k: "k \<in> set (map key_of cs) - {key_of e}"
    then obtain c where "c \<in> set cs" "key_of c = k" "key_of c \<noteq> key_of e" by auto
    with got[of c] show "k \<in> {k. \<exists>v. snd (Get env l t k) = Inr v}" by auto
  qed
  moreover from e have "key_of e \<in> set (map key_of cs)" by simp
  then have "card (set (map key_of cs) - {key_of e}) = card (set (map key_of cs)) - 1"
    by simp
  moreover from dist have "card (set (map key_of cs)) = length cs"
    by (metis distinct_card length_map)
  ultimately have cd: "card {k. \<exists>v. snd (Get env l t k) = Inr v} = nat n"
    using len by simp
  show ?thesis
  proof (rule bexI[OF _ e], intro conjI)
    show "\<forall>c \<in> set cs. exp_of e \<le> exp_of c" by (rule mn)
    show "calls l = [(key_of e, None)]" by (rule cl)
    show "Get env l t (key_of e) = (l, Inl ErrItemNotFound)" by (rule nf)
    show "\<forall>c \<in> set cs. key_of c \<noteq> key_of e \<longrightarrow> (\<exists>v. Get env l t (key_of c) = (l, Inr v))"
      using got by blast
    show "card {k. \<exists>v. snd (Get env l t k) = Inr v} = nat n" by (rule cd)
  qed
qed

theorem capacity_eviction_witness:
  "NewLRUWithTTL 2 opts_hook = Inr (new_cache 2) \<and> EvictCallback opts_hook
   \<and> int (length three_sets) = 2 + 1 \<and> distinct (map key_of three_sets)
   \<and> snd (Set_all env0 (new_cache 2) three_sets) = [None, None, None]
   \<and> (5::int) \<le> 0 + 30 \<and> (5::int) \<le> 1 + 10 \<and> (5::int) \<le> 2 + 20
   \<and> calls (fst (Set_all env0 (new_cache 2) three_sets)) = [(''b'', None)]
   \<and> Get env0 (fst (Set_all env0 (new_cache 2) three_sets)) 5 ''b''
       = (fst (Set_all env0 (new_cache 2) three_sets), Inl ErrItemNotFound)
   \<and> (\<exists>v. Get env0 (fst (Set_all env0 (new_cache 2) three_sets)) 5 ''a''
             = (fst (Set_all env0 (new_cache 2) three_sets), Inr v))
   \<and> (\<exists>v. Get env0 (fst (Set_all env0 (new_cache 2) three_sets)) 5 ''c''
             = (fst (Set_all env0 (new_cache 2) three_sets), Inr v))
   \<and> card {k. \<exists>v. snd (Get env0 (fst (Set_all env0 (new_cache 2) three_sets)) 5 k) = Inr v} = 2"
proof -
  let ?l = "fst (Set_all env0 (new_cache 2) three_sets)"
  have h1: "NewLRUWithTTL 2 opts_hook = Inr (new_cache 2)" by (rule new_cache_eq) simp
  have h2: "EvictCallback opts_hook" by (simp add: opts_hook_def)
  have h3: "int (length three_sets) = 2 + 1" by (simp add: three_sets_def)
  have h4: "distinct (map key_of three_sets)" by (simp add: three_sets_def key_of_def)
  have rs: "snd (Set_all env0 (new_cache 2) three_sets) = [None, None, None]"
    unfolding three_sets_def by code_simp
  have h5: "Set_all env0 (new_cache 2) three_sets = (?l, snd (Set_all env0 (new_cache 2) three_sets))"
    by simp
  have h6: "\<forall>r \<in> set (snd (Set_all env0 (new_cache 2) three_sets)). r = None"
    by (simp add: rs)
  have h7: "\<forall>c \<in> set three_sets. 5 \<le> exp_of c" by (simp add: three_sets_def exp_of_def)
  have b: "calls ?l = [(''b'', None)]"
    unfolding three_sets_def by code_simp
  from capacity_eviction[OF h1 h2 h3 h4 h5 h6 h7] obtain e where
    e: "e \<in> set three_sets"
    and cl: "calls ?l = [(key_of e, None)]"
    and nf: "Get env0 ?l 5 (key_of e) = (?l, Inl ErrItemNotFound)"
    and got: "\<forall>c \<in> set three_sets. key_of c \<noteq> key_of e
                \<longrightarrow> (\<exists>v. Get env0 ?l 5 (key_of c) = (?l, Inr v))"
    and cd: "card {k. \<exists>v. snd (Get env0 ?l 5 k) = Inr v} = nat 2"
    by blast
  from cl b have ke: "key_of e = ''b''" by simp
  have ina: "(0, ''a'', VInt 1, 30) \<in> set three_sets" by (simp add: three_sets_def)
  have inc: "(2, ''c'', VInt 3, 20) \<in> set three_sets" by (simp add: three_sets_def)
  have ka: "key_of (0::int, ''a'', VInt 1 :: (unit, unit) val, 30::int) = ''a''"
    by (simp add: key_of_def)
  have kc: "key_of (2::int, ''c'', VInt 3 :: (unit, unit) val, 20::int) = ''c''"
    by (simp add: key_of_def)
  from got[rule_format, OF ina] have ga: "\<exists>v. Get env0 ?l 5 ''a'' = (?l, Inr v)"
    by (simp only: ka ke) simp
  from got[rule_format, OF inc] have gc: "\<exists>v. Get env0 ?l 5 ''c'' = (?l, Inr v)"
    by (simp only: kc ke) simp
  from nf have gb: "Get env0 ?l 5 ''b'' = (?l, Inl ErrItemNotFound)" by (simp add: ke)
  from cd have cd2: "card {k. \<exists>v. snd (Get env0 ?l 5 k) = Inr v} = 2" by simp
  from h1 h2 h3 h4 rs b gb ga gc cd2 show ?thesis by simp
qed

subsection \<open>The capacity bound on a cache that has been used\<close>

text \<open>
  C2, evaluated where the code departs from it. The cache of size 3 has stored "x" and
  deleted it again: its store is empty, and "x" is still in \<open>items\<close>. Four \<open>Set\<close> calls
  on the distinct keys "a", "b", "x", "d", with expirations 101, 102, 103, 104, all
  succeed. They evict "x", which does not have the earliest expiration, and then "a"; the
  callback is invoked twice, and at time 5 only "b" and "d" are retrievable.
\<close>

theorem capacity_after_Delete:
  "reachable env0 used_cache
   \<and> size_lru used_cache = 3
   \<and> db used_cache = Map.empty
   \<and> snd (Set_all env0 used_cache four_sets) = [None, None, None, None]
   \<and> calls (fst (Set_all env0 used_cache four_sets)) = [(''x'', None), (''a'', None)]
   \<and> snd (Get env0 (fst (Set_all env0 used_cache four_sets)) 5 ''a'') = Inl ErrItemNotFound
   \<and> snd (Get env0 (fst (Set_all env0 used_cache four_sets)) 5 ''b'') = Inr (VInt 2)
   \<and> snd (Get env0 (fst (Set_all env0 used_cache four_sets)) 5 ''x'') = Inl ErrItemNotFound
   \<and> snd (Get env0 (fst (Set_all env0 used_cache four_sets)) 5 ''d'') = Inr (VInt 4)"
proof -
  have r: "reachable env0 used_cache"
    unfolding used_cache_def
    by (rule reachable.delete, rule reachable.set, rule reachable_new_cache) simp
  have s: "size_lru used_cache = 3"
    unfolding used_cache_def by code_simp
  have d: "db used_cache = Map.empty"
    by (rule ext) (simp add: used_cache_def run_simps Sprintf_d_def digits_of.simps digit_char_def)
  have rs: "snd (Set_all env0 used_cache four_sets) = [None, None, None, None]"
    unfolding used_cache_def four_sets_def by code_simp
  have c: "calls (fst (Set_all env0 used_cache four_sets)) = [(''x'', None), (''a'', None)]"
    unfolding used_cache_def four_sets_def by code_simp
  have ga: "snd (Get env0 (fst (Set_all env0 used_cache four_sets)) 5 ''a'') = Inl ErrItemNotFound"
    unfolding used_cache_def four_sets_def by code_simp
  have gb: "snd (Get env0 (fst (Set_all env0 used_cache four_sets)) 5 ''b'') = Inr (VInt 2)"
    unfolding used_cache_def four_sets_def by code_simp
  have gx: "snd (Get env0 (fst (Set_all env0 used_cache four_sets)) 5 ''x'') = Inl ErrItemNotFound"
    unfolding used_cache_def four_sets_def by code_simp
  have gd: "snd (Get env0 (fst (Set_all env0 used_cache four_sets)) 5 ''d'') = Inr (VInt 4)"
    unfolding used_cache_def four_sets_def by code_simp
  from r s d rs c ga gb gx gd show ?thesis by blast
qed

end
